theory Spec2Isabelle
  imports Complex_Main "HOL-Library.Word" "HOL-Library.Signed_Division"
begin

section \<open>Machine integers of the target\<close>

text \<open>
  The sketch is built for the Arduino Micro (ATmega32U4, avr-gcc): \<open>int\<close> is a 16-bit
  two's complement integer, \<open>uint8_t\<close> has 8 bits and \<open>uint32_t\<close> has 32 bits.
  A 16-bit \<open>int\<close> is a \<open>16 word\<close> read through \<open>sint\<close>; \<open>+\<close> and \<open>-\<close> wrap around.
\<close>

type_synonym int16 = "16 word"
type_synonym uint8 = "8 word"
type_synonym uint32 = "32 word"

text \<open>
  \<open>abs\<close> on a 16-bit \<open>int\<close>. Arduino defines it as the macro \<open>x > 0 ? x : -x\<close>; both
  forms return the same value for every \<open>x\<close>, and \<open>-x\<close> wraps around at \<open>-32768\<close>.
\<close>

definition abs16 :: "int16 \<Rightarrow> int16" where
  "abs16 x = (if x <s 0 then - x else x)"

text \<open>The \<open>%\<close> operator of C on \<open>int\<close>: the remainder of the division truncated towards zero.\<close>

definition mod16 :: "int16 \<Rightarrow> int16 \<Rightarrow> int16" where
  "mod16 a b = word_of_int (sint a smod sint b)"

text \<open>
  A C array of fixed size is a list; an access outside the array is undefined behaviour
  and is \<open>None\<close> here.
\<close>

definition array_get :: "'a list \<Rightarrow> int \<Rightarrow> 'a option" where
  "array_get xs i = (if 0 \<le> i \<and> i < int (length xs) then Some (xs ! nat i) else None)"

definition array_set :: "'a list \<Rightarrow> int \<Rightarrow> 'a \<Rightarrow> 'a list option" where
  "array_set xs i v = (if 0 \<le> i \<and> i < int (length xs) then Some (xs[nat i := v]) else None)"

text \<open>A counting \<open>for\<close> loop over the given indices whose body may fail.\<close>

primrec for_each :: "nat list \<Rightarrow> (nat \<Rightarrow> 's \<Rightarrow> 's option) \<Rightarrow> 's \<Rightarrow> 's option" where
  "for_each [] body s = Some s"
| "for_each (i # js) body s = (case body i s of None \<Rightarrow> None | Some s' \<Rightarrow> for_each js body s')"

section \<open>Constants and global data\<close>

abbreviation (input) NUM_LEDS :: "'a::numeral" where
  "NUM_LEDS \<equiv> 144"

abbreviation (input) NUM_RAINBOW_LEDS :: "'a::numeral" where
  "NUM_RAINBOW_LEDS \<equiv> 12"

abbreviation (input) COLOR_POT_PIN :: uint8 where
  "COLOR_POT_PIN \<equiv> 0"

abbreviation (input) SPEED_POT_PIN :: uint8 where
  "SPEED_POT_PIN \<equiv> 1"

text \<open>The \<open>CRGB\<close> pixel of FastLED, and its colour \<open>CRGB::Black\<close>.\<close>

datatype CRGB = CRGB uint8 uint8 uint8

definition Black :: CRGB where
  "Black = CRGB 0 0 0"

definition MAX_INTENSITY :: uint8 where
  "MAX_INTENSITY = 30"

definition MEDIUM_INTENSITY :: uint8 where
  "MEDIUM_INTENSITY = MAX_INTENSITY div 4"

definition intensity_progression :: "uint8 list" where
  "intensity_progression =
     [MEDIUM_INTENSITY, MAX_INTENSITY, MAX_INTENSITY, MAX_INTENSITY, MAX_INTENSITY,
      MAX_INTENSITY, MEDIUM_INTENSITY, 0, 0, 0, 0, 0]"

definition shift :: nat where
  "shift = 4"

section \<open>AnalogReader\<close>

record AnalogReader =
  a_pin :: uint8
  a_top :: int16
  a_min :: int16
  a_max :: int16

definition new_AnalogReader :: "uint8 \<Rightarrow> int16 \<Rightarrow> AnalogReader" where
  "new_AnalogReader pin tp = \<lparr>a_pin = pin, a_top = tp, a_min = 1023, a_max = 0\<rparr>"

text \<open>
  The product \<open>uint32_t(_top) * relative\<close>: both operands are converted to \<open>uint32_t\<close>
  (a signed 16-bit value is sign-extended) and multiplied modulo \<open>2 ^ 32\<close>.
\<close>

definition scaled :: "int16 \<Rightarrow> int16 \<Rightarrow> uint32" where
  "scaled tp relative = scast tp * scast relative"

text \<open>
  \<open>get_value\<close>; the sample returned by \<open>analogRead(_pin)\<close> is the first argument.
  The quotient is an unsigned 32-bit division, truncated to 16 bits by the assignment
  to \<open>int value\<close>.
\<close>

definition get_value :: "int16 \<Rightarrow> AnalogReader \<Rightarrow> int16 \<times> AnalogReader" where
  "get_value sample rd =
     (let val = sample;
          mn = (if val <s a_min rd then val else a_min rd);
          mx = (if a_max rd <s val then val else a_max rd);
          range = mx - mn;
          relative = val - mn;
          val = (if range = 0 then a_top rd
                 else ucast (scaled (a_top rd) relative div scast range))
      in (val, rd\<lparr>a_min := mn, a_max := mx\<rparr>))"

text \<open>Successive calls of \<open>get_value\<close> on one reader, one per sample.\<close>

fun get_values :: "int16 list \<Rightarrow> AnalogReader \<Rightarrow> int16 list \<times> AnalogReader" where
  "get_values [] rd = ([], rd)"
| "get_values (s # ss) rd =
     (let (v, rd') = get_value s rd; (vs, rd'') = get_values ss rd' in (v # vs, rd''))"

text \<open>
  The interpolation as the specification words it, on unbounded integers:
  \<open>ceiling * (sample - min) / (max - min)\<close>, and the ceiling when \<open>min = max\<close>.
\<close>

fun ideal_values :: "int \<Rightarrow> int list \<Rightarrow> int \<Rightarrow> int \<Rightarrow> int list" where
  "ideal_values tp [] mn mx = []"
| "ideal_values tp (s # ss) mn mx =
     (let mn' = min s mn; mx' = max s mx
      in (if mx' = mn' then tp else tp * (s - mn') div (mx' - mn'))
         # ideal_values tp ss mn' mx')"

text \<open>The bounds kept by a reader whose samples all lie in \<open>[0, 1023]\<close>, and a top that is not negative.\<close>

definition reader_ok :: "AnalogReader \<Rightarrow> bool" where
  "reader_ok rd \<longleftrightarrow>
     0 \<le> sint (a_top rd) \<and>
     0 \<le> sint (a_min rd) \<and> sint (a_min rd) \<le> 1023 \<and>
     0 \<le> sint (a_max rd) \<and> sint (a_max rd) \<le> 1023"

section \<open>Direction and speed\<close>

definition set_direction_and_speed :: "int16 \<Rightarrow> int16 \<times> int16" where
  "set_direction_and_speed value0 =
     (let val = value0 - 512;
          val = (if abs16 val <s 32 then 0 else val);
          direction = (if val <s 0 then 1 else if 0 <s val then - 1 else 0);
          speed = abs16 val
      in (direction, speed))"

record Settings =
  steps_direction :: int16
  steps_speed :: int16
  color_direction :: int16
  color_speed :: int16

section \<open>State\<close>

record State =
  start_led :: int16
  color_index :: int16

definition step_leds :: "Settings \<Rightarrow> State \<Rightarrow> State" where
  "step_leds settings st =
     (if 0 <s steps_direction settings then
        st\<lparr>start_led := mod16 (start_led st + 1) NUM_LEDS\<rparr>
      else if steps_direction settings <s 0 then
        st\<lparr>start_led := mod16 (start_led st - 1 + NUM_LEDS) NUM_LEDS\<rparr>
      else st)"

definition step_color :: "Settings \<Rightarrow> State \<Rightarrow> State" where
  "step_color settings st =
     (if 0 <s color_direction settings then
        st\<lparr>color_index := mod16 (color_index st + 1) NUM_RAINBOW_LEDS\<rparr>
      else if color_direction settings <s 0 then
        st\<lparr>color_index := mod16 (color_index st - 1 + NUM_RAINBOW_LEDS) NUM_RAINBOW_LEDS\<rparr>
      else st)"

section \<open>CountTrigger\<close>

record CountTrigger =
  counter :: uint32
  level :: uint32

definition new_CountTrigger :: CountTrigger where
  "new_CountTrigger = \<lparr>counter = 0, level = 0\<rparr>"

definition set_trigger_level :: "uint32 \<Rightarrow> CountTrigger \<Rightarrow> CountTrigger" where
  "set_trigger_level lv t = t\<lparr>level := lv\<rparr>"

definition tick :: "CountTrigger \<Rightarrow> bool \<times> CountTrigger" where
  "tick t =
     (let c = counter t + 1
      in if level t \<le> c then (True, t\<lparr>counter := 0\<rparr>) else (False, t\<lparr>counter := c\<rparr>))"

text \<open>\<open>n\<close> successive calls of \<open>tick\<close>: what each call returned, in order, and the trigger left.\<close>

fun ticks :: "nat \<Rightarrow> CountTrigger \<Rightarrow> bool list \<times> CountTrigger" where
  "ticks 0 t = ([], t)"
| "ticks (Suc n) t =
     (let (fired, t') = tick t; (rest, t'') = ticks n t' in (fired # rest, t''))"

text \<open>
  \<open>reverse_and_expo\<close>. The floating-point expression \<open>1 + pow(2, value / 64.0)\<close>, converted to
  \<open>int\<close> by the \<open>return\<close>, is computed by the C library; it is the parameter \<open>expo\<close>,
  applied to the reversed and clamped value.
\<close>

definition reverse_and_expo :: "(int16 \<Rightarrow> int16) \<Rightarrow> int16 \<Rightarrow> int16" where
  "reverse_and_expo expo value0 =
     (let val = 512 - abs16 value0;
          val = (if val = 0 then 1 else val)
      in expo val)"

text \<open>
  Modelled from the spec: the C library's \<open>pow\<close> and the floating-point arithmetic of the
  target are not part of the sketch. The expression \<open>1 + pow(2, value / 64.0)\<close> converted to
  \<open>int\<close> is taken as the specification words it: \<open>1 + 2^(folded / K)\<close> with \<open>K = 64\<close>,
  computed with real-valued exponentiation and truncated to an integer.
\<close>

definition expo_spec :: "int16 \<Rightarrow> int16" where
  "expo_spec v = word_of_int \<lfloor>1 + 2 powr (real_of_int (sint v) / 64)\<rfloor>"

section \<open>The sketch: start-up and loop\<close>

record Sketch =
  leds :: "CRGB list"
  green :: "uint8 list"
  red :: "uint8 list"
  blue :: "uint8 list"
  steps_reader :: AnalogReader
  color_reader :: AnalogReader
  state :: State
  steps_trigger :: CountTrigger
  color_trigger :: CountTrigger

text \<open>
  The globals and function-local statics before the start-up function runs: the arrays
  and the \<open>State\<close> are zero-initialised, the readers and triggers are built by their
  constructors.
\<close>

definition power_on :: Sketch where
  "power_on =
     \<lparr>leds = replicate NUM_LEDS (CRGB 0 0 0),
      green = replicate NUM_RAINBOW_LEDS 0,
      red = replicate NUM_RAINBOW_LEDS 0,
      blue = replicate NUM_RAINBOW_LEDS 0,
      steps_reader = new_AnalogReader SPEED_POT_PIN 1023,
      color_reader = new_AnalogReader COLOR_POT_PIN 1023,
      state = \<lparr>start_led = 0, color_index = 0\<rparr>,
      steps_trigger = new_CountTrigger,
      color_trigger = new_CountTrigger\<rparr>"

text \<open>The body of the first loop of the start-up function, for the index \<open>i\<close>.\<close>

definition add_intensity :: "nat \<Rightarrow> Sketch \<Rightarrow> Sketch option" where
  "add_intensity i sk =
     Option.bind (array_get intensity_progression (int i)) (\<lambda>p.
     Option.bind (array_set (green sk) (int ((i + 0 * shift) mod NUM_RAINBOW_LEDS)) p) (\<lambda>gs.
     Option.bind (array_set (red sk) (int ((i + 1 * shift) mod NUM_RAINBOW_LEDS)) p) (\<lambda>rs.
     Option.bind (array_set (blue sk) (int ((i + 2 * shift) mod NUM_RAINBOW_LEDS)) p) (\<lambda>bs.
     Some (sk\<lparr>green := gs, red := rs, blue := bs\<rparr>)))))"

text \<open>The body of the second loop of the start-up function.\<close>

definition turn_off_all :: "nat \<Rightarrow> Sketch \<Rightarrow> Sketch option" where
  "turn_off_all whiteLed sk =
     (case array_set (leds sk) (int whiteLed) Black of None \<Rightarrow> None
      | Some ls \<Rightarrow> Some (sk\<lparr>leds := ls\<rparr>))"

text \<open>The start-up function of the sketch.\<close>

definition setup_sketch :: "Sketch \<Rightarrow> Sketch option" where
  "setup_sketch sk =
     (case for_each [0..<NUM_RAINBOW_LEDS] add_intensity sk of None \<Rightarrow> None
      | Some sk' \<Rightarrow> for_each [0..<NUM_LEDS] turn_off_all sk')"

text \<open>
  \<open>Settings::get_settings\<close>; the two samples are what \<open>analogRead\<close> returns for the speed
  pot and for the colour pot, in the order of the calls.
\<close>

definition get_settings :: "int16 \<Rightarrow> int16 \<Rightarrow> Sketch \<Rightarrow> Settings \<times> Sketch" where
  "get_settings speed_sample color_sample sk =
     (let (movement, sr) = get_value speed_sample (steps_reader sk);
          (color, cr) = get_value color_sample (color_reader sk);
          (sd, ss) = set_direction_and_speed movement;
          (cd, cs) = set_direction_and_speed color
      in (\<lparr>steps_direction = sd, steps_speed = ss, color_direction = cd, color_speed = cs\<rparr>,
          sk\<lparr>steps_reader := sr, color_reader := cr\<rparr>))"

text \<open>The body of the loop that turns the old window off.\<close>

definition turn_off_led :: "int16 \<Rightarrow> nat \<Rightarrow> CRGB list \<Rightarrow> CRGB list option" where
  "turn_off_led start i ls = array_set ls (sint (mod16 (start + of_nat i) NUM_LEDS)) Black"

text \<open>The body of the loop that sets the colours; both positions are stored in a \<open>uint8_t\<close>.\<close>

definition set_led_color ::
  "State \<Rightarrow> uint8 list \<Rightarrow> uint8 list \<Rightarrow> uint8 list \<Rightarrow> nat \<Rightarrow> CRGB list \<Rightarrow> CRGB list option" where
  "set_led_color st rs gs bs i ls =
     (let led_pos = (ucast (mod16 (start_led st + of_nat i) NUM_LEDS) :: uint8);
          color_pos = (ucast (mod16 (color_index st + of_nat i) NUM_RAINBOW_LEDS) :: uint8)
      in Option.bind (array_get rs (uint color_pos)) (\<lambda>rv.
         Option.bind (array_get gs (uint color_pos)) (\<lambda>gv.
         Option.bind (array_get bs (uint color_pos)) (\<lambda>bv.
         array_set ls (uint led_pos) (CRGB rv gv bv)))))"

text \<open>
  The middle of \<open>loop\<close>: both trigger levels are set from the speeds, both triggers tick,
  and a trigger that fired steps its index.
\<close>

definition advance :: "(int16 \<Rightarrow> int16) \<Rightarrow> Settings \<Rightarrow> Sketch \<Rightarrow> Sketch" where
  "advance expo settings sk =
     (let steps_overflow_value = reverse_and_expo expo (steps_speed settings);
          color_overflow_value = reverse_and_expo expo (color_speed settings);
          st = set_trigger_level (scast steps_overflow_value) (steps_trigger sk);
          ct = set_trigger_level (scast color_overflow_value) (color_trigger sk);
          (steps_fired, st) = tick st;
          state1 = (if steps_fired then step_leds settings (state sk) else state sk);
          (color_fired, ct) = tick ct;
          state2 = (if color_fired then step_color settings state1 else state1)
      in sk\<lparr>state := state2, steps_trigger := st, color_trigger := ct\<rparr>)"

text \<open>One run of \<open>loop\<close>. \<open>FastLED.show()\<close> hands the buffer to the strip and changes nothing here.\<close>

definition loop :: "(int16 \<Rightarrow> int16) \<Rightarrow> int16 \<Rightarrow> int16 \<Rightarrow> Sketch \<Rightarrow> Sketch option" where
  "loop expo speed_sample color_sample sk0 =
     (let (settings, sk) = get_settings speed_sample color_sample sk0
      in Option.bind
           (for_each [0..<NUM_RAINBOW_LEDS] (turn_off_led (start_led (state sk))) (leds sk))
           (\<lambda>off.
              let sk = advance expo settings (sk\<lparr>leds := off\<rparr>)
              in Option.bind
                   (for_each [0..<NUM_RAINBOW_LEDS]
                      (set_led_color (state sk) (red sk) (green sk) (blue sk)) (leds sk))
                   (\<lambda>lit. Some (sk\<lparr>leds := lit\<rparr>))))"

text \<open>
  Successive runs of \<open>loop\<close>, one per pair of samples (speed pot, colour pot); a run that
  fails ends the sequence.
\<close>

fun loops :: "(int16 \<Rightarrow> int16) \<Rightarrow> (int16 \<times> int16) list \<Rightarrow> Sketch \<Rightarrow> Sketch option" where
  "loops expo [] sk = Some sk"
| "loops expo ((speed_sample, color_sample) # rest) sk =
     Option.bind (loop expo speed_sample color_sample sk) (loops expo rest)"

text \<open>
  What every run of \<open>loop\<close> relies on and keeps: the arrays have their declared sizes and
  both indices of the state are inside their ranges.
\<close>

definition sketch_ok :: "Sketch \<Rightarrow> bool" where
  "sketch_ok sk \<longleftrightarrow>
     length (leds sk) = NUM_LEDS \<and>
     length (green sk) = NUM_RAINBOW_LEDS \<and>
     length (red sk) = NUM_RAINBOW_LEDS \<and>
     length (blue sk) = NUM_RAINBOW_LEDS \<and>
     0 \<le> sint (start_led (state sk)) \<and> sint (start_led (state sk)) < NUM_LEDS \<and>
     0 \<le> sint (color_index (state sk)) \<and> sint (color_index (state sk)) < NUM_RAINBOW_LEDS"

text \<open>
  The rendering as the specification words it. \<open>window_offset lead p\<close> is the offset of the
  strip position \<open>p\<close> from the leading index, around the strip. The window at the old
  leading index is cleared to the off colour, then the window at the new leading index is
  written, the LED at offset \<open>i\<close> from the colour-table slot \<open>(phase + i) mod 12\<close>.
\<close>

definition window_offset :: "nat \<Rightarrow> nat \<Rightarrow> nat" where
  "window_offset lead p = (p + NUM_LEDS - lead) mod NUM_LEDS"

definition table_color :: "uint8 list \<Rightarrow> uint8 list \<Rightarrow> uint8 list \<Rightarrow> nat \<Rightarrow> nat \<Rightarrow> CRGB" where
  "table_color rs gs bs phase i =
     CRGB (rs ! ((phase + i) mod NUM_RAINBOW_LEDS))
          (gs ! ((phase + i) mod NUM_RAINBOW_LEDS))
          (bs ! ((phase + i) mod NUM_RAINBOW_LEDS))"

definition render_spec ::
  "nat \<Rightarrow> nat \<Rightarrow> nat \<Rightarrow> uint8 list \<Rightarrow> uint8 list \<Rightarrow> uint8 list \<Rightarrow> CRGB list \<Rightarrow> CRGB list" where
  "render_spec old_lead new_lead phase rs gs bs ls =
     map (\<lambda>p. if window_offset new_lead p < NUM_RAINBOW_LEDS
               then table_color rs gs bs phase (window_offset new_lead p)
               else if window_offset old_lead p < NUM_RAINBOW_LEDS then Black
               else ls ! p)
       [0..<NUM_LEDS]"

section \<open>Signed 16-bit arithmetic without overflow\<close>

lemma sint16_range: "- 32768 \<le> sint (x::int16) \<and> sint x < 32768"
  using sint_ge [of x] sint_lt [of x] by simp

lemma sint16_sub:
  "- 32768 \<le> sint a - sint b \<Longrightarrow> sint a - sint b < 32768 \<Longrightarrow> sint (a - b :: int16) = sint a - sint b"
  by (simp add: sint_word_diff signed_take_bit_int_eq_self)

lemma sint16_add:
  "- 32768 \<le> sint a + sint b \<Longrightarrow> sint a + sint b < 32768 \<Longrightarrow> sint (a + b :: int16) = sint a + sint b"
  by (simp add: sint_word_ariths signed_take_bit_int_eq_self)

lemma sint16_abs:
  "- 32768 < sint a \<Longrightarrow> sint (abs16 a) = \<bar>sint a\<bar>"
  using sint16_range [of a]
  by (simp add: abs16_def word_sless_alt sint_word_minus signed_take_bit_int_eq_self)

lemma abs16_0: "abs16 0 = 0"
  by (simp add: abs16_def)

lemma sint16_of_int: "- 32768 \<le> k \<Longrightarrow> k < 32768 \<Longrightarrow> sint (word_of_int k :: int16) = k"
  by (simp add: sint_sbintrunc' signed_take_bit_int_eq_self)

section \<open>The decoder\<close>

lemma decode_dir:
  assumes "0 \<le> sint v" "sint v \<le> 1023"
  shows "fst (set_direction_and_speed v) =
           (if sint v \<le> 480 then 1 else if 544 \<le> sint v then - 1 else 0)"
proof -
  have c: "sint (v - 512) = sint v - 512"
    using assms by (simp add: sint16_sub)
  have a: "sint (abs16 (v - 512)) = \<bar>sint v - 512\<bar>"
    using assms c by (simp add: sint16_abs)
  show ?thesis
    using assms c a
    by (auto simp add: set_direction_and_speed_def Let_def word_sless_alt)
qed

lemma decode_speed:
  assumes "0 \<le> sint v" "sint v \<le> 1023"
  shows "sint (snd (set_direction_and_speed v)) =
           (if sint v \<le> 480 then 512 - sint v else if 544 \<le> sint v then sint v - 512 else 0)"
proof -
  have c: "sint (v - 512) = sint v - 512"
    using assms by (simp add: sint16_sub)
  have a: "sint (abs16 (v - 512)) = \<bar>sint v - 512\<bar>"
    using assms c by (simp add: sint16_abs)
  show ?thesis
    using assms c a
    by (auto simp add: set_direction_and_speed_def Let_def word_sless_alt abs16_0)
qed

lemma sint_mirror: "0 \<le> sint v \<Longrightarrow> sint v \<le> 1023 \<Longrightarrow> sint (1023 - v :: int16) = 1023 - sint v"
  by (simp add: sint16_sub)

lemma sint_mirror': "1 \<le> sint v \<Longrightarrow> sint v \<le> 1023 \<Longrightarrow> sint (1024 - v :: int16) = 1024 - sint v"
  by (simp add: sint16_sub)

lemma int16_zero_iff: "(v::int16) = 0 \<longleftrightarrow> sint v = 0"
  by (metis sint_0 signed_word_eqI)

text \<open>
  Claim C10. For every input in \<open>[0, 1023]\<close> the speed lies in \<open>[0, 512]\<close>; the speed \<open>512\<close>
  is reached at the input \<open>0\<close> only, where the direction is \<open>+1\<close>; with direction \<open>-1\<close> the
  speed is at most \<open>511\<close>, reached at the input \<open>1023\<close>.
\<close>

theorem decode_speed_range:
  assumes "0 \<le> sint v" "sint v \<le> 1023"
  shows "0 \<le> sint (snd (set_direction_and_speed v)) \<and>
         sint (snd (set_direction_and_speed v)) \<le> 512 \<and>
         (sint (snd (set_direction_and_speed v)) = 512 \<longleftrightarrow> v = 0) \<and>
         set_direction_and_speed 0 = (1, 512) \<and>
         (fst (set_direction_and_speed v) = - 1 \<longrightarrow> sint (snd (set_direction_and_speed v)) \<le> 511) \<and>
         set_direction_and_speed 1023 = (- 1, 511)"
proof -
  have e0: "set_direction_and_speed 0 = (1, 512)"
    by (simp add: set_direction_and_speed_def abs16_def word_sless_alt)
  have e1: "set_direction_and_speed 1023 = (- 1, 511)"
    by (simp add: set_direction_and_speed_def abs16_def word_sless_alt)
  show ?thesis
    using assms e0 e1 by (simp add: decode_dir decode_speed int16_zero_iff)
qed

theorem decode_speed_range_witness:
  "0 \<le> sint (1023 :: int16) \<and> sint (1023 :: int16) \<le> 1023 \<and>
   fst (set_direction_and_speed 1023) = - 1 \<and>
   sint (snd (set_direction_and_speed 1023)) \<le> 511 \<and>
   0 \<le> sint (0 :: int16) \<and> sint (0 :: int16) \<le> 1023 \<and>
   sint (snd (set_direction_and_speed 0)) = 512"
  using decode_speed_range [of 1023] decode_speed_range [of 0] by simp

text \<open>
  Claim C2, amended. The decoder centres its input on \<open>512\<close>, not on \<open>1023 / 2\<close>: for every
  input \<open>v\<close> in \<open>[0, 1023]\<close> it returns direction \<open>0\<close> and speed \<open>0\<close> exactly when
  \<open>\<bar>v - 512\<bar> < 32\<close>; at \<open>\<bar>v - 512\<bar> = 32\<close> the direction is not \<open>0\<close>; outside the dead zone
  the direction is \<open>+1\<close> when \<open>v - 512\<close> is negative and \<open>-1\<close> when it is positive, and the
  speed is \<open>\<bar>v - 512\<bar>\<close>.
\<close>

theorem decode_dead_zone:
  assumes "0 \<le> sint v" "sint v \<le> 1023"
  shows "(set_direction_and_speed v = (0, 0) \<longleftrightarrow> \<bar>sint v - 512\<bar> < 32) \<and>
         (fst (set_direction_and_speed v) = 0 \<longleftrightarrow> \<bar>sint v - 512\<bar> < 32) \<and>
         (snd (set_direction_and_speed v) = 0 \<longleftrightarrow> \<bar>sint v - 512\<bar> < 32) \<and>
         (\<bar>sint v - 512\<bar> = 32 \<longrightarrow> fst (set_direction_and_speed v) \<noteq> 0) \<and>
         (sint v - 512 \<le> - 32 \<longrightarrow> fst (set_direction_and_speed v) = 1) \<and>
         (32 \<le> sint v - 512 \<longrightarrow> fst (set_direction_and_speed v) = - 1) \<and>
         (32 \<le> \<bar>sint v - 512\<bar> \<longrightarrow> sint (snd (set_direction_and_speed v)) = \<bar>sint v - 512\<bar>)"
proof -
  have d: "fst (set_direction_and_speed v) = 0 \<longleftrightarrow> \<bar>sint v - 512\<bar> < 32"
    using assms by (auto simp add: decode_dir)
  have s: "snd (set_direction_and_speed v) = 0 \<longleftrightarrow> \<bar>sint v - 512\<bar> < 32"
    using assms by (auto simp add: int16_zero_iff decode_speed)
  have b: "set_direction_and_speed v = (0, 0) \<longleftrightarrow> \<bar>sint v - 512\<bar> < 32"
    using d s by (auto simp add: prod_eq_iff)
  show ?thesis
    using assms b d s by (auto simp add: decode_dir decode_speed)
qed

theorem decode_dead_zone_witness:
  "0 \<le> sint (480 :: int16) \<and> sint (480 :: int16) \<le> 1023 \<and>
   \<bar>sint (480 :: int16) - 512\<bar> = 32 \<and> set_direction_and_speed 480 \<noteq> (0, 0) \<and>
   fst (set_direction_and_speed 480) = 1 \<and> sint (snd (set_direction_and_speed 480)) = 32 \<and>
   0 \<le> sint (1000 :: int16) \<and> sint (1000 :: int16) \<le> 1023 \<and>
   32 \<le> sint (1000 :: int16) - 512 \<and>
   fst (set_direction_and_speed 1000) = - 1 \<and> sint (snd (set_direction_and_speed 1000)) = 488 \<and>
   0 \<le> sint (512 :: int16) \<and> sint (512 :: int16) \<le> 1023 \<and>
   \<bar>sint (512 :: int16) - 512\<bar> < 32 \<and> set_direction_and_speed 512 = (0, 0)"
  using decode_dead_zone [of 480] decode_dead_zone [of 1000] decode_dead_zone [of 512] by simp

text \<open>
  Claim C2 as stated fails at the input \<open>480\<close>: it is within \<open>32\<close> of \<open>1023 / 2\<close> (read as an
  integer division or as a fraction), and the decoder returns direction \<open>+1\<close> and speed \<open>32\<close>.
\<close>

theorem decode_dead_zone_counterexample:
  "\<bar>480 - 1023 div 2\<bar> < (32::int) \<and> \<bar>480 - 1023 / 2\<bar> < (32::real) \<and>
   0 \<le> sint (480::int16) \<and> sint (480::int16) \<le> 1023 \<and>
   set_direction_and_speed 480 = (1, 32)"
  by (simp add: set_direction_and_speed_def abs16_def word_sless_alt)

text \<open>
  Claim C1, amended. For every input \<open>v\<close> in \<open>[0, 1023]\<close> with \<open>v \<le> 479\<close> or \<open>v \<ge> 544\<close>,
  decoding \<open>1023 - v\<close> yields the opposite direction of decoding \<open>v\<close>, and the speed on the
  \<open>+1\<close> side is greater by one than the speed on the \<open>-1\<close> side. The decoder is odd-symmetric
  about \<open>512\<close>: for every \<open>v\<close> in \<open>[1, 1023]\<close>, decoding \<open>1024 - v\<close> yields the negated
  direction and the same speed.
\<close>

theorem decode_mirror:
  assumes "0 \<le> sint v" "sint v \<le> 1023"
  shows "(sint v \<le> 479 \<longrightarrow>
            fst (set_direction_and_speed v) = 1 \<and>
            fst (set_direction_and_speed (1023 - v)) = - 1 \<and>
            sint (snd (set_direction_and_speed v)) =
              sint (snd (set_direction_and_speed (1023 - v))) + 1) \<and>
         (544 \<le> sint v \<longrightarrow>
            fst (set_direction_and_speed v) = - 1 \<and>
            fst (set_direction_and_speed (1023 - v)) = 1 \<and>
            sint (snd (set_direction_and_speed (1023 - v))) =
              sint (snd (set_direction_and_speed v)) + 1) \<and>
         (1 \<le> sint v \<longrightarrow>
            fst (set_direction_and_speed (1024 - v)) = - fst (set_direction_and_speed v) \<and>
            snd (set_direction_and_speed (1024 - v)) = snd (set_direction_and_speed v))"
proof -
  have m: "sint (1023 - v) = 1023 - sint v"
    using assms by (rule sint_mirror)
  have r: "0 \<le> sint (1023 - v) \<and> sint (1023 - v) \<le> 1023"
    using assms m by simp
  have lo: "sint v \<le> 479 \<longrightarrow>
            fst (set_direction_and_speed v) = 1 \<and>
            fst (set_direction_and_speed (1023 - v)) = - 1 \<and>
            sint (snd (set_direction_and_speed v)) =
              sint (snd (set_direction_and_speed (1023 - v))) + 1"
    using assms m r by (simp add: decode_dir decode_speed)
  have hi: "544 \<le> sint v \<longrightarrow>
            fst (set_direction_and_speed v) = - 1 \<and>
            fst (set_direction_and_speed (1023 - v)) = 1 \<and>
            sint (snd (set_direction_and_speed (1023 - v))) =
              sint (snd (set_direction_and_speed v)) + 1"
    using assms m r by (simp add: decode_dir decode_speed)
  have ce: "1 \<le> sint v \<longrightarrow>
            fst (set_direction_and_speed (1024 - v)) = - fst (set_direction_and_speed v) \<and>
            snd (set_direction_and_speed (1024 - v)) = snd (set_direction_and_speed v)"
  proof
    assume p: "1 \<le> sint v"
    have m': "sint (1024 - v) = 1024 - sint v"
      using p assms by (simp add: sint_mirror')
    have r': "0 \<le> sint (1024 - v) \<and> sint (1024 - v) \<le> 1023"
      using p assms m' by simp
    have d: "fst (set_direction_and_speed (1024 - v)) = - fst (set_direction_and_speed v)"
      using assms m' r' by (simp add: decode_dir)
    have "sint (snd (set_direction_and_speed (1024 - v))) = sint (snd (set_direction_and_speed v))"
      using assms m' r' by (simp add: decode_speed)
    then have s: "snd (set_direction_and_speed (1024 - v)) = snd (set_direction_and_speed v)"
      by (rule signed_word_eqI)
    from d s show "fst (set_direction_and_speed (1024 - v)) = - fst (set_direction_and_speed v) \<and>
            snd (set_direction_and_speed (1024 - v)) = snd (set_direction_and_speed v)" ..
  qed
  from lo hi ce show ?thesis by blast
qed

theorem decode_mirror_witness:
  "0 \<le> sint (100 :: int16) \<and> sint (100 :: int16) \<le> 1023 \<and> sint (100 :: int16) \<le> 479 \<and>
   1 \<le> sint (100 :: int16) \<and>
   fst (set_direction_and_speed 100) = 1 \<and> fst (set_direction_and_speed (1023 - 100)) = - 1 \<and>
   sint (snd (set_direction_and_speed 100)) = sint (snd (set_direction_and_speed (1023 - 100))) + 1 \<and>
   snd (set_direction_and_speed (1024 - 100)) = snd (set_direction_and_speed 100) \<and>
   0 \<le> sint (900 :: int16) \<and> sint (900 :: int16) \<le> 1023 \<and> 544 \<le> sint (900 :: int16) \<and>
   fst (set_direction_and_speed 900) = - 1 \<and> fst (set_direction_and_speed (1023 - 900)) = 1 \<and>
   sint (snd (set_direction_and_speed (1023 - 900))) = sint (snd (set_direction_and_speed 900)) + 1"
  using decode_mirror [of 100] decode_mirror [of 900] by simp

text \<open>
  Claim C1 as stated fails at the input \<open>0\<close>, which is outside the dead zone: its speed is
  \<open>512\<close>, the speed of the mirrored input \<open>1023\<close> is \<open>511\<close>.
\<close>

theorem decode_mirror_counterexample:
  "0 \<le> sint (0::int16) \<and> sint (0::int16) \<le> 1023 \<and>
   (32::int) \<le> \<bar>0 - 1023 div 2\<bar> \<and> (32::real) \<le> \<bar>0 - 1023 / 2\<bar> \<and>
   set_direction_and_speed 0 = (1, 512) \<and>
   set_direction_and_speed (1023 - 0) = (- 1, 511) \<and>
   snd (set_direction_and_speed (1023 - 0)) \<noteq> snd (set_direction_and_speed 0)"
  by (simp add: set_direction_and_speed_def abs16_def word_sless_alt)


section \<open>The auto-calibrating reader\<close>

lemma uint32_scast:
  assumes "0 \<le> sint (a::int16)"
  shows "uint (scast a :: uint32) = sint a"
proof -
  have "uint (scast a :: uint32) = take_bit LENGTH(32) (sint a)"
    by (simp only: scast_eq uint_word_of_int_eq)
  also have "\<dots> = sint a"
    using assms sint16_range [of a] by (simp add: take_bit_int_eq_self)
  finally show ?thesis .
qed

lemma scaled_exact:
  assumes "0 \<le> sint tp" "0 \<le> sint rel"
  shows "uint (scaled tp rel) = sint tp * sint rel"
proof -
  have "sint tp * sint rel \<le> 32767 * 32767"
    using assms sint16_range [of tp] sint16_range [of rel]
    by (intro mult_mono) simp_all
  then have lt: "sint tp * sint rel < 2 ^ 32"
    by simp
  have nn: "0 \<le> sint tp * sint rel"
    using assms by simp
  have "uint (scaled tp rel) = (sint tp * sint rel) mod 2 ^ 32"
    by (simp add: scaled_def uint_word_ariths uint32_scast [OF assms(1)] uint32_scast [OF assms(2)])
  also have "\<dots> = sint tp * sint rel"
    using nn lt by (rule mod_pos_pos_trivial)
  finally show ?thesis .
qed


lemma interp_bounds:
  fixes tp rel rng :: int
  assumes "0 \<le> tp" "0 \<le> rel" "rel \<le> rng" "0 < rng"
  shows "0 \<le> tp * rel div rng" "tp * rel div rng \<le> tp"
proof -
  show "0 \<le> tp * rel div rng"
    using assms by (simp add: pos_imp_zdiv_nonneg_iff)
  have "tp * rel \<le> tp * rng"
    using assms by (simp add: mult_left_mono)
  then have "tp * rel div rng \<le> tp * rng div rng"
    using assms(4) by (rule zdiv_mono1)
  then show "tp * rel div rng \<le> tp"
    using assms by simp
qed

lemma get_value_exact:
  assumes ok: "reader_ok rd" and s: "0 \<le> sint s" "sint s \<le> 1023"
  shows "sint (fst (get_value s rd)) =
           (let mn' = min (sint s) (sint (a_min rd)); mx' = max (sint s) (sint (a_max rd))
            in if mx' = mn' then sint (a_top rd)
               else sint (a_top rd) * (sint s - mn') div (mx' - mn'))"
    and "sint (a_min (snd (get_value s rd))) = min (sint s) (sint (a_min rd))"
    and "sint (a_max (snd (get_value s rd))) = max (sint s) (sint (a_max rd))"
    and "a_top (snd (get_value s rd)) = a_top rd"
    and "reader_ok (snd (get_value s rd))"
    and "0 \<le> sint (fst (get_value s rd)) \<and> sint (fst (get_value s rd)) \<le> sint (a_top rd)"
proof -
  define mn where "mn = (if s <s a_min rd then s else a_min rd)"
  define mx where "mx = (if a_max rd <s s then s else a_max rd)"
  let ?tp = "sint (a_top rd)"
  have mn: "sint mn = min (sint s) (sint (a_min rd))"
    by (simp add: mn_def word_sless_alt min_def)
  have mx: "sint mx = max (sint s) (sint (a_max rd))"
    by (simp add: mx_def word_sless_alt max_def)
  have b: "0 \<le> sint mn" "sint mn \<le> sint s" "sint s \<le> sint mx" "sint mx \<le> 1023"
    using ok s mn mx by (simp_all add: reader_ok_def)
  have rng: "sint (mx - mn) = sint mx - sint mn"
    using b by (simp add: sint16_sub)
  have rel: "sint (s - mn) = sint s - sint mn"
    using b s by (simp add: sint16_sub)
  have z: "mx - mn = 0 \<longleftrightarrow> sint mx = sint mn"
    using rng by (simp add: int16_zero_iff)
  have gv: "get_value s rd =
              (if mx - mn = 0 then a_top rd
               else ucast (scaled (a_top rd) (s - mn) div scast (mx - mn)),
               rd\<lparr>a_min := mn, a_max := mx\<rparr>)"
    by (simp add: get_value_def Let_def mn_def mx_def)
  have tp: "0 \<le> ?tp"
    using ok by (simp add: reader_ok_def)
  have q: "sint (ucast (scaled (a_top rd) (s - mn) div scast (mx - mn)) :: int16) =
             ?tp * (sint s - sint mn) div (sint mx - sint mn) \<and>
           0 \<le> ?tp * (sint s - sint mn) div (sint mx - sint mn) \<and>
           ?tp * (sint s - sint mn) div (sint mx - sint mn) \<le> ?tp"
    if ne: "sint mx \<noteq> sint mn"
  proof -
    let ?e = "?tp * (sint s - sint mn) div (sint mx - sint mn)"
    have pos: "0 < sint mx - sint mn"
      using b ne by simp
    have r1: "0 \<le> sint (s - mn)"
      using rel b by simp
    have r2: "0 \<le> sint (mx - mn)"
      using rng b by simp
    have u: "uint (scaled (a_top rd) (s - mn) div scast (mx - mn)) = ?e"
      by (simp only: uint_div scaled_exact [OF tp r1] uint32_scast [OF r2] rel rng)
    have r3: "0 \<le> sint s - sint mn" "sint s - sint mn \<le> sint mx - sint mn"
      using b by simp_all
    have lo: "0 \<le> ?e"
      using tp r3 pos by (rule interp_bounds(1))
    have hi: "?e \<le> ?tp"
      using tp r3 pos by (rule interp_bounds(2))
    have "sint (ucast (scaled (a_top rd) (s - mn) div scast (mx - mn)) :: int16) =
            signed_take_bit (LENGTH(16) - Suc 0) ?e"
      by (simp only: signed_ucast_eq u)
    moreover have "signed_take_bit (LENGTH(16) - Suc 0) ?e = ?e"
      using lo hi sint16_range [of "a_top rd"] by (simp add: signed_take_bit_int_eq_self)
    ultimately show ?thesis
      using lo hi by simp
  qed
  have val: "fst (get_value s rd) =
               (if sint mx = sint mn then a_top rd
                else ucast (scaled (a_top rd) (s - mn) div scast (mx - mn)))"
    by (simp only: gv fst_conv z)
  show v: "sint (fst (get_value s rd)) =
           (let mn' = min (sint s) (sint (a_min rd)); mx' = max (sint s) (sint (a_max rd))
            in if mx' = mn' then sint (a_top rd)
               else sint (a_top rd) * (sint s - mn') div (mx' - mn'))"
  proof (cases "sint mx = sint mn")
    case True
    then show ?thesis
      using mn mx by (simp add: val Let_def)
  next
    case False
    then show ?thesis
      using q [OF False] mn mx by (simp add: val Let_def)
  qed
  show "sint (a_min (snd (get_value s rd))) = min (sint s) (sint (a_min rd))"
    using mn by (simp add: gv)
  show "sint (a_max (snd (get_value s rd))) = max (sint s) (sint (a_max rd))"
    using mx by (simp add: gv)
  show "a_top (snd (get_value s rd)) = a_top rd"
    by (simp add: gv)
  show "reader_ok (snd (get_value s rd))"
    using ok b s by (simp add: gv reader_ok_def)
  show "0 \<le> sint (fst (get_value s rd)) \<and> sint (fst (get_value s rd)) \<le> sint (a_top rd)"
  proof (cases "sint mx = sint mn")
    case True
    then show ?thesis
      using tp by (simp add: val)
  next
    case False
    then show ?thesis
      using q [OF False] by (simp add: val)
  qed
qed

lemma get_values_ok:
  "reader_ok rd \<Longrightarrow> \<forall>s\<in>set ss. 0 \<le> sint s \<and> sint s \<le> 1023 \<Longrightarrow>
   reader_ok (snd (get_values ss rd)) \<and> a_top (snd (get_values ss rd)) = a_top rd"
proof (induction ss arbitrary: rd)
  case Nil
  then show ?case by simp
next
  case (Cons s ss)
  have s: "0 \<le> sint s" "sint s \<le> 1023"
    using Cons.prems(2) by simp_all
  have ok': "reader_ok (snd (get_value s rd))"
    using Cons.prems(1) s by (rule get_value_exact(5))
  have tp': "a_top (snd (get_value s rd)) = a_top rd"
    using Cons.prems(1) s by (rule get_value_exact(4))
  have rest: "\<forall>s\<in>set ss. 0 \<le> sint s \<and> sint s \<le> 1023"
    using Cons.prems(2) by simp
  show ?case
    using Cons.IH [OF ok' rest] tp' by (simp add: split_beta)
qed

lemma get_values_exact:
  "reader_ok rd \<Longrightarrow> \<forall>s\<in>set ss. 0 \<le> sint s \<and> sint s \<le> 1023 \<Longrightarrow>
   map sint (fst (get_values ss rd)) =
     ideal_values (sint (a_top rd)) (map sint ss) (sint (a_min rd)) (sint (a_max rd)) \<and>
   (\<forall>v\<in>set (fst (get_values ss rd)). 0 \<le> sint v \<and> sint v \<le> sint (a_top rd))"
proof (induction ss arbitrary: rd)
  case Nil
  then show ?case by simp
next
  case (Cons s ss)
  have s: "0 \<le> sint s" "sint s \<le> 1023"
    using Cons.prems(2) by simp_all
  note gv = get_value_exact [OF Cons.prems(1) s]
  have rest: "\<forall>s\<in>set ss. 0 \<le> sint s \<and> sint s \<le> 1023"
    using Cons.prems(2) by simp
  note ih = Cons.IH [OF gv(5) rest]
  show ?case
    using ih gv(1,2,3,4,6) by (simp add: split_beta Let_def)
qed

lemma new_reader_ok: "0 \<le> sint tp \<Longrightarrow> reader_ok (new_AnalogReader pin tp)"
  by (simp add: reader_ok_def new_AnalogReader_def)

text \<open>
  Claim C4. For every sequence of raw samples in \<open>[0, 1023]\<close> fed to a fresh reader with
  top \<open>1023\<close>, every call of \<open>get_value\<close> returns a value in \<open>[0, 1023]\<close>, equal to the
  interpolation computed on unbounded integers; in every call the 32-bit product
  \<open>uint32_t(_top) * relative\<close> is the exact product, so nothing wraps around.
\<close>

theorem normalizer_range:
  assumes "\<forall>s\<in>set samples. 0 \<le> sint s \<and> sint s \<le> 1023"
  shows "(\<forall>v\<in>set (fst (get_values samples (new_AnalogReader pin 1023))).
            0 \<le> sint v \<and> sint v \<le> 1023) \<and>
         map sint (fst (get_values samples (new_AnalogReader pin 1023))) =
           ideal_values 1023 (map sint samples) 1023 0 \<and>
         (\<forall>before s after. samples = before @ s # after \<longrightarrow>
            (let rd = snd (get_values before (new_AnalogReader pin 1023));
                 relative = s - a_min (snd (get_value s rd))
             in uint (scaled (a_top rd) relative) = 1023 * sint relative \<and>
                0 \<le> sint relative \<and> sint relative \<le> 1023))"
proof -
  let ?rd0 = "new_AnalogReader pin 1023"
  have ok0: "reader_ok ?rd0"
    by (simp add: new_reader_ok)
  have f: "sint (a_top ?rd0) = 1023" "sint (a_min ?rd0) = 1023" "sint (a_max ?rd0) = 0"
    by (simp_all add: new_AnalogReader_def)
  have a: "(\<forall>v\<in>set (fst (get_values samples ?rd0)). 0 \<le> sint v \<and> sint v \<le> 1023) \<and>
           map sint (fst (get_values samples ?rd0)) = ideal_values 1023 (map sint samples) 1023 0"
    using get_values_exact [OF ok0 assms] by (simp only: f) simp
  have b: "let rd = snd (get_values before ?rd0);
               relative = s - a_min (snd (get_value s rd))
           in uint (scaled (a_top rd) relative) = 1023 * sint relative \<and>
              0 \<le> sint relative \<and> sint relative \<le> 1023"
    if split: "samples = before @ s # after" for before s after
  proof -
    let ?rd = "snd (get_values before ?rd0)"
    have pre: "\<forall>s\<in>set before. 0 \<le> sint s \<and> sint s \<le> 1023"
      using assms split by simp
    have s: "0 \<le> sint s" "sint s \<le> 1023"
      using assms split by simp_all
    have ok: "reader_ok ?rd" and tp: "a_top ?rd = 1023"
      using get_values_ok [OF ok0 pre] by (simp_all add: new_AnalogReader_def)
    have mn: "sint (a_min (snd (get_value s ?rd))) = min (sint s) (sint (a_min ?rd))"
      using ok s by (rule get_value_exact(2))
    have mnb: "0 \<le> sint (a_min (snd (get_value s ?rd)))"
      "sint (a_min (snd (get_value s ?rd))) \<le> sint s"
      using mn ok s by (simp_all add: reader_ok_def)
    have rel: "sint (s - a_min (snd (get_value s ?rd))) = sint s - sint (a_min (snd (get_value s ?rd)))"
      using mnb s by (simp add: sint16_sub)
    have nn: "0 \<le> sint (s - a_min (snd (get_value s ?rd)))"
      using rel mnb by simp
    have t0: "0 \<le> sint (a_top ?rd)"
      using tp by simp
    have "uint (scaled (a_top ?rd) (s - a_min (snd (get_value s ?rd)))) =
            sint (a_top ?rd) * sint (s - a_min (snd (get_value s ?rd)))"
      using t0 nn by (rule scaled_exact)
    then show ?thesis
      using tp rel mnb s by (simp add: Let_def)
  qed
  from a b show ?thesis
    by blast
qed

theorem normalizer_range_witness:
  "0 \<le> sint (512 :: int16) \<and> sint (512 :: int16) \<le> 1023 \<and>
   0 \<le> sint (0 :: int16) \<and> sint (0 :: int16) \<le> 1023 \<and>
   0 \<le> sint (700 :: int16) \<and> sint (700 :: int16) \<le> 1023 \<and>
   0 \<le> sint (300 :: int16) \<and> sint (300 :: int16) \<le> 1023 \<and>
   map sint (fst (get_values [512, 0, 700, 300] (new_AnalogReader 1 1023))) = [1023, 0, 1023, 438] \<and>
   uint (scaled 1023 (700 - 0)) = 1023 * 700"
proof -
  have h: "\<forall>s\<in>set [512, 0, 700, 300 :: int16]. 0 \<le> sint s \<and> sint s \<le> 1023"
    by simp
  have i: "ideal_values 1023 (map sint [512, 0, 700, 300 :: int16]) 1023 0 = [1023, 0, 1023, 438]"
    by simp
  have r: "snd (get_values [512, 0] (new_AnalogReader 1 1023)) =
             \<lparr>a_pin = 1, a_top = 1023, a_min = 0, a_max = 512\<rparr>"
    by (simp add: get_value_def new_AnalogReader_def Let_def word_sless_alt)
  have m: "a_min (snd (get_value 700 \<lparr>a_pin = 1, a_top = 1023, a_min = 0, a_max = 512\<rparr>)) = 0"
    by (simp add: get_value_def Let_def word_sless_alt)
  note t = normalizer_range [OF h, of 1]
  from t have p: "\<forall>before s after. [512, 0, 700, 300 :: int16] = before @ s # after \<longrightarrow>
            (let rd = snd (get_values before (new_AnalogReader 1 1023));
                 relative = s - a_min (snd (get_value s rd))
             in uint (scaled (a_top rd) relative) = 1023 * sint relative \<and>
                0 \<le> sint relative \<and> sint relative \<le> 1023)"
    by (elim conjE)
  have eq: "[512, 0, 700, 300 :: int16] = [512, 0] @ 700 # [300]"
    by simp
  have "uint (scaled 1023 (700 - 0)) = 1023 * sint (700 - 0 :: int16) \<and>
        0 \<le> sint (700 - 0 :: int16) \<and> sint (700 - 0 :: int16) \<le> 1023"
    using p [rule_format, OF eq] unfolding Let_def r m by (simp only: AnalogReader.select_convs)
  then have "uint (scaled 1023 (700 - 0)) = 1023 * 700"
    by simp
  with t h i show ?thesis
    by simp
qed

lemma get_value_first:
  assumes "0 \<le> sint s" "sint s \<le> 1023"
  shows "get_value s (new_AnalogReader pin tp) = (tp, (new_AnalogReader pin tp)\<lparr>a_min := s, a_max := s\<rparr>)"
proof -
  have mn: "s = 1023" if "\<not> s <s 1023"
    using assms that by (auto simp add: word_sless_alt intro: signed_word_eqI)
  have mx: "s = 0" if "\<not> 0 <s s"
    using assms that by (auto simp add: word_sless_alt intro: signed_word_eqI)
  have ne: "\<not> (\<not> s <s 1023 \<and> \<not> 0 <s s)"
    by (auto simp add: word_sless_alt)
  show ?thesis
    using mn mx ne by (auto simp add: get_value_def new_AnalogReader_def Let_def)
qed

lemma get_value_same:
  assumes "a_min rd = s" "a_max rd = s"
  shows "get_value s rd = (a_top rd, rd)"
  using assms by (simp add: get_value_def Let_def word_sless_alt)

lemma get_values_same:
  "a_min rd = s \<Longrightarrow> a_max rd = s \<Longrightarrow> fst (get_values (replicate n s) rd) = replicate n (a_top rd)"
  by (induction n) (simp_all add: get_value_same split_beta)

text \<open>
  Claim C5. Whenever the minimum and the maximum recorded by a call of \<open>get_value\<close> are
  equal, the call returns the top value. This is the case on the first call of a fresh
  reader for every raw sample in \<open>[0, 1023]\<close>, and on every call as long as the reader is
  fed the same sample.
\<close>

theorem normalizer_single_value:
  "(a_min (snd (get_value s rd)) = a_max (snd (get_value s rd)) \<longrightarrow>
      fst (get_value s rd) = a_top rd) \<and>
   (0 \<le> sint s \<and> sint s \<le> 1023 \<longrightarrow>
      fst (get_value s (new_AnalogReader pin tp)) = tp \<and>
      fst (get_values (replicate n s) (new_AnalogReader pin tp)) = replicate n tp)"
proof -
  have a: "a_min (snd (get_value s rd)) = a_max (snd (get_value s rd)) \<longrightarrow>
           fst (get_value s rd) = a_top rd"
    by (simp add: get_value_def Let_def)
  have b: "fst (get_values (replicate n s) (new_AnalogReader pin tp)) = replicate n tp"
    if r: "0 \<le> sint s" "sint s \<le> 1023"
  proof (cases n)
    case 0
    then show ?thesis by simp
  next
    case (Suc m)
    let ?rd = "(new_AnalogReader pin tp)\<lparr>a_min := s, a_max := s\<rparr>"
    have "fst (get_values (replicate m s) ?rd) = replicate m (a_top ?rd)"
      by (rule get_values_same) simp_all
    then show ?thesis
      using Suc get_value_first [OF r, of pin tp]
      by (simp add: split_beta new_AnalogReader_def)
  qed
  have c: "fst (get_value s (new_AnalogReader pin tp)) = tp"
    if r: "0 \<le> sint s" "sint s \<le> 1023"
    using get_value_first [OF r, of pin tp] by simp
  from a b c show ?thesis
    by blast
qed

theorem normalizer_single_value_witness:
  "0 \<le> sint (512 :: int16) \<and> sint (512 :: int16) \<le> 1023 \<and>
   a_min (snd (get_value 512 (new_AnalogReader 0 1023))) =
     a_max (snd (get_value 512 (new_AnalogReader 0 1023))) \<and>
   fst (get_value 512 (new_AnalogReader 0 1023)) = 1023 \<and>
   fst (get_values (replicate 3 512) (new_AnalogReader 0 1023)) = [1023, 1023, 1023]"
proof -
  have e: "a_min (snd (get_value 512 (new_AnalogReader 0 1023))) =
           a_max (snd (get_value 512 (new_AnalogReader 0 1023)))"
    by (simp add: get_value_def new_AnalogReader_def Let_def word_sless_alt)
  have n: "replicate 3 (1023 :: int16) = [1023, 1023, 1023]"
    by (simp add: numeral_3_eq_3)
  from normalizer_single_value [of 512 "new_AnalogReader 0 1023" 0 1023 3] e n
  show ?thesis
    by (simp add: new_AnalogReader_def)
qed

section \<open>The counting trigger\<close>

lemma tick_below:
  assumes "counter t < level t"
  shows "tick t = (if unat (counter t) + 1 = unat (level t) then (True, t\<lparr>counter := 0\<rparr>)
                   else (False, t\<lparr>counter := counter t + 1\<rparr>))"
    and "unat (level t) \<noteq> unat (counter t) + 1 \<Longrightarrow> counter t + 1 < level t"
    and "unat (level t) \<noteq> unat (counter t) + 1 \<Longrightarrow> unat (counter t + 1) = unat (counter t) + 1"
proof -
  have lt: "unat (counter t) < unat (level t)"
    using assms by (simp add: word_less_nat_alt)
  have bound: "unat (level t) < 2 ^ 32"
    using unsigned_less [of "level t"] by simp
  have u: "unat (counter t + 1) = unat (counter t) + 1"
    using lt bound by (simp add: unat_word_ariths)
  show "tick t = (if unat (counter t) + 1 = unat (level t) then (True, t\<lparr>counter := 0\<rparr>)
                   else (False, t\<lparr>counter := counter t + 1\<rparr>))"
    using lt u by (auto simp add: tick_def Let_def word_le_nat_alt)
  show "unat (level t) \<noteq> unat (counter t) + 1 \<Longrightarrow> counter t + 1 < level t"
    using lt u by (simp add: word_less_nat_alt)
  show "unat (level t) \<noteq> unat (counter t) + 1 \<Longrightarrow> unat (counter t + 1) = unat (counter t) + 1"
    using u by simp
qed

lemma ticks_fire:
  "counter t < level t \<Longrightarrow>
   fst (ticks n t) = map (\<lambda>k. unat (level t) dvd unat (counter t) + k + 1) [0..<n]"
proof (induction n arbitrary: t)
  case 0
  then show ?case by simp
next
  case (Suc n)
  let ?L = "unat (level t)"
  let ?c = "unat (counter t)"
  have lt: "?c < ?L"
    using Suc.prems by (simp add: word_less_nat_alt)
  have up: "[0..<Suc n] = 0 # map Suc [0..<n]"
    by (simp add: upt_conv_Cons map_Suc_upt del: upt_Suc)
  show ?case
  proof (cases "?c + 1 = ?L")
    case True
    let ?t' = "t\<lparr>counter := 0\<rparr>"
    have tk: "tick t = (True, ?t')"
      using tick_below(1) [OF Suc.prems] True by simp
    have pos: "counter ?t' < level ?t'"
      using lt by (simp add: word_less_nat_alt)
    have ih: "fst (ticks n ?t') = map (\<lambda>k. ?L dvd k + 1) [0..<n]"
      using Suc.IH [OF pos] by simp
    have shift: "(?L dvd k + 1) = (?L dvd ?c + Suc k + 1)" for k
    proof -
      have "?c + Suc k + 1 = ?L + (k + 1)"
        using True by simp
      then show ?thesis
        by (simp only: dvd_add_triv_left_iff)
    qed
    have hd: "?L dvd ?c + 0 + 1"
      using True by simp
    show ?thesis
      using tk ih hd shift
      by (simp add: up split_beta Let_def comp_def del: upt_Suc)
  next
    case False
    let ?t' = "t\<lparr>counter := counter t + 1\<rparr>"
    have tk: "tick t = (False, ?t')"
      using tick_below(1) [OF Suc.prems] False by simp
    have ne: "?L \<noteq> ?c + 1"
      using False by simp
    have pos: "counter ?t' < level ?t'"
      using tick_below(2) [OF Suc.prems ne] by simp
    have u: "unat (counter ?t') = ?c + 1"
      using tick_below(3) [OF Suc.prems ne] by simp
    have ih: "fst (ticks n ?t') = map (\<lambda>k. ?L dvd (?c + 1) + k + 1) [0..<n]"
      using Suc.IH [OF pos] u by simp
    have hd: "\<not> ?L dvd ?c + 0 + 1"
      using lt False by (auto dest: dvd_imp_le)
    show ?thesis
      using tk ih hd
      by (simp add: up split_beta Let_def comp_def del: upt_Suc)
  qed
qed

text \<open>
  Claim C3. A trigger whose counter is \<open>0\<close> (freshly constructed, or just reset by firing) and
  whose level is set to a constant \<open>L \<ge> 1\<close> fires on its \<open>k\<close>-th call of \<open>tick\<close> exactly when
  \<open>L\<close> divides \<open>k\<close>: the first \<open>L - 1\<close> calls return false, the \<open>L\<close>-th returns true, and
  from then on it fires once every \<open>L\<close> calls.
\<close>

theorem trigger_period:
  assumes "L \<noteq> 0" "counter t = 0"
  shows "fst (ticks n (set_trigger_level L t)) = map (\<lambda>k. unat L dvd k + 1) [0..<n]"
proof -
  have "counter (set_trigger_level L t) < level (set_trigger_level L t)"
    using assms by (simp add: set_trigger_level_def word_neq_0_conv)
  from ticks_fire [OF this] show ?thesis
    using assms by (simp add: set_trigger_level_def)
qed

theorem trigger_period_witness:
  "(3::uint32) \<noteq> 0 \<and> counter new_CountTrigger = 0 \<and>
   fst (ticks 7 (set_trigger_level 3 new_CountTrigger)) =
     [False, False, True, False, False, True, False]"
proof -
  have h1: "(3::uint32) \<noteq> 0"
    by simp
  have h2: "counter new_CountTrigger = 0"
    by (simp add: new_CountTrigger_def)
  have m: "map (\<lambda>k. unat (3::uint32) dvd k + 1) [0..<7] =
             [False, False, True, False, False, True, False]"
    by code_simp
  from trigger_period [OF h1 h2, of 7] m h1 h2 show ?thesis
    by simp
qed

section \<open>The trigger level\<close>

text \<open>
  The integer part of \<open>reverse_and_expo\<close>: a speed in \<open>[0, 512]\<close> is reversed to
  \<open>512 - speed\<close>, and the result \<open>0\<close> (at the speed \<open>512\<close>) is replaced by \<open>1\<close>, so the
  exponential is applied to a value in \<open>[1, 512]\<close>.
\<close>

lemma reverse_and_expo_fold:
  assumes "0 \<le> sint speed" "sint speed \<le> 512"
  shows "reverse_and_expo expo speed = expo (if speed = 512 then 1 else 512 - speed)"
    and "1 \<le> sint (if speed = 512 then 1 else 512 - speed)"
    and "sint (if speed = 512 then 1 else 512 - speed) \<le> 512"
proof -
  have a: "abs16 speed = speed"
    using assms by (simp add: abs16_def word_sless_alt)
  have d: "sint (512 - speed) = 512 - sint speed"
    using assms by (simp add: sint16_sub)
  have z: "512 - speed = 0 \<longleftrightarrow> speed = 512"
    by auto
  have ne: "sint speed \<noteq> 512" if "speed \<noteq> 512"
  proof
    assume "sint speed = 512"
    then have "sint speed = sint (512 :: int16)"
      by simp
    then have "speed = 512"
      by (rule signed_word_eqI)
    with that show False
      by simp
  qed
  show "reverse_and_expo expo speed = expo (if speed = 512 then 1 else 512 - speed)"
    by (simp add: reverse_and_expo_def Let_def a z)
  show "1 \<le> sint (if speed = 512 then 1 else 512 - speed)"
    using assms d ne by auto
  show "sint (if speed = 512 then 1 else 512 - speed) \<le> 512"
    using assms d by auto
qed

lemma level_bounds:
  fixes k :: int
  assumes "1 \<le> k" "k \<le> 512"
  shows "2 \<le> \<lfloor>1 + 2 powr (real_of_int k / 64)\<rfloor>"
    and "\<lfloor>1 + 2 powr (real_of_int k / 64)\<rfloor> \<le> 257"
proof -
  let ?x = "real_of_int k / 64"
  have x0: "0 \<le> ?x"
    using assms by simp
  have x8: "?x \<le> 8"
    using assms by simp
  have lo: "1 \<le> (2::real) powr ?x"
    using x0 by (simp add: ge_one_powr_ge_zero)
  have "(2::real) powr ?x \<le> 2 powr 8"
    using x8 by (intro powr_mono) simp_all
  also have "(2::real) powr 8 = 256"
    by simp
  finally have hi: "(2::real) powr ?x \<le> 256" .
  show "2 \<le> \<lfloor>1 + 2 powr ?x\<rfloor>"
    using lo by (simp add: le_floor_iff)
  show "\<lfloor>1 + 2 powr ?x\<rfloor> \<le> 257"
    using hi by (simp add: floor_le_iff)
qed

lemma expo_spec_value:
  assumes "1 \<le> sint v" "sint v \<le> 512"
  shows "sint (expo_spec v) = \<lfloor>1 + 2 powr (real_of_int (sint v) / 64)\<rfloor>"
    and "2 \<le> sint (expo_spec v)"
    and "sint (expo_spec v) \<le> 257"
proof -
  note b = level_bounds [OF assms]
  show e: "sint (expo_spec v) = \<lfloor>1 + 2 powr (real_of_int (sint v) / 64)\<rfloor>"
    unfolding expo_spec_def using b by (intro sint16_of_int) linarith+
  show "2 \<le> sint (expo_spec v)"
    using b(1) by (simp only: e)
  show "sint (expo_spec v) \<le> 257"
    using b(2) by (simp only: e)
qed

lemma expo_spec_ends: "expo_spec 512 = 257" "expo_spec 1 = 2"
proof -
  show "expo_spec 512 = 257"
    by (simp add: expo_spec_def)
  have lo: "1 \<le> (2::real) powr (1 / 64)"
    by (simp add: ge_one_powr_ge_zero)
  have "(2::real) powr (1 / 64) < 2 powr 1"
    by (intro powr_less_mono) simp_all
  then have hi: "(2::real) powr (1 / 64) < 2"
    by simp
  have "\<lfloor>1 + (2::real) powr (1 / 64)\<rfloor> = 2"
    using lo hi by (simp add: floor_eq_iff)
  then show "expo_spec 1 = 2"
    by (simp add: expo_spec_def)
qed

text \<open>
  Claim C6. With the exponential of the specification, for every speed in \<open>[0, 512]\<close> the
  trigger level is an integer of at least \<open>2\<close>, equal to \<open>1 + 2^(folded / 64)\<close> truncated,
  where \<open>folded\<close> is \<open>512 - speed\<close> raised to \<open>1\<close> when it would be \<open>0\<close>; the level at speed
  \<open>0\<close> is \<open>257\<close>, the level at speed \<open>512\<close> is \<open>2\<close>, so the former is strictly greater.
\<close>

theorem trigger_level:
  assumes "0 \<le> sint speed" "sint speed \<le> 512"
  shows "2 \<le> sint (reverse_and_expo expo_spec speed) \<and>
         sint (reverse_and_expo expo_spec speed) =
           \<lfloor>1 + 2 powr (real_of_int (max 1 (512 - sint speed)) / 64)\<rfloor> \<and>
         reverse_and_expo expo_spec 0 = 257 \<and>
         reverse_and_expo expo_spec 512 = 2 \<and>
         sint (reverse_and_expo expo_spec 512) < sint (reverse_and_expo expo_spec 0)"
proof -
  let ?f = "if speed = 512 then 1 else 512 - speed"
  note fold = reverse_and_expo_fold [OF assms]
  have d: "sint (512 - speed) = 512 - sint speed"
    using assms by (simp add: sint16_sub)
  have ne: "sint speed \<noteq> 512" if "speed \<noteq> 512"
  proof
    assume "sint speed = 512"
    then have "sint speed = sint (512 :: int16)"
      by simp
    then have "speed = 512"
      by (rule signed_word_eqI)
    with that show False
      by simp
  qed
  have f: "sint ?f = max 1 (512 - sint speed)"
    using assms d ne by auto
  have a: "2 \<le> sint (reverse_and_expo expo_spec speed)"
    using expo_spec_value(2) [OF fold(2,3)] by (simp only: fold(1))
  have b: "sint (reverse_and_expo expo_spec speed) =
             \<lfloor>1 + 2 powr (real_of_int (max 1 (512 - sint speed)) / 64)\<rfloor>"
    using expo_spec_value(1) [OF fold(2,3)] by (simp only: fold(1) f)
  have z: "reverse_and_expo expo_spec 0 = 257"
    by (simp add: reverse_and_expo_def abs16_def expo_spec_ends)
  have t: "reverse_and_expo expo_spec 512 = 2"
    by (simp add: reverse_and_expo_def abs16_def word_sless_alt expo_spec_ends)
  have lt: "sint (reverse_and_expo expo_spec 512) < sint (reverse_and_expo expo_spec 0)"
    by (simp add: z t)
  from a b z t lt show ?thesis
    by blast
qed

theorem trigger_level_witness:
  "0 \<le> sint (0 :: int16) \<and> sint (0 :: int16) \<le> 512 \<and>
   0 \<le> sint (512 :: int16) \<and> sint (512 :: int16) \<le> 512 \<and>
   2 \<le> sint (reverse_and_expo expo_spec 0) \<and>
   2 \<le> sint (reverse_and_expo expo_spec 512) \<and>
   reverse_and_expo expo_spec 0 = 257 \<and> reverse_and_expo expo_spec 512 = 2"
  using trigger_level [of 0] trigger_level [of 512] by simp

section \<open>Stepping the state\<close>

text \<open>
  Claim C7. Stepping the leading LED index with direction \<open>+1\<close> from \<open>143\<close> yields \<open>0\<close>, and
  with direction \<open>-1\<close> from \<open>0\<close> yields \<open>143\<close>; the colour index wraps in the same way
  between \<open>11\<close> and \<open>0\<close>; with direction \<open>0\<close> a step leaves the state unchanged. Each step
  function leaves the other index alone.
\<close>

theorem step_wraparound:
  "start_led (step_leds (settings\<lparr>steps_direction := 1\<rparr>) (st\<lparr>start_led := 143\<rparr>)) = 0 \<and>
   start_led (step_leds (settings\<lparr>steps_direction := - 1\<rparr>) (st\<lparr>start_led := 0\<rparr>)) = 143 \<and>
   color_index (step_color (settings\<lparr>color_direction := 1\<rparr>) (st\<lparr>color_index := 11\<rparr>)) = 0 \<and>
   color_index (step_color (settings\<lparr>color_direction := - 1\<rparr>) (st\<lparr>color_index := 0\<rparr>)) = 11 \<and>
   step_leds (settings\<lparr>steps_direction := 0\<rparr>) st = st \<and>
   step_color (settings\<lparr>color_direction := 0\<rparr>) st = st \<and>
   color_index (step_leds settings st) = color_index st \<and>
   start_led (step_color settings st) = start_led st"
  by (simp add: step_leds_def step_color_def word_sless_alt mod16_def signed_modulo_int_def)


section \<open>The colour table\<close>

lemma setup_value:
  "setup_sketch power_on =
     Some (power_on\<lparr>leds := replicate 144 Black,
        green := [7, 30, 30, 30, 30, 30, 7, 0, 0, 0, 0, 0],
        red := [0, 0, 0, 0, 7, 30, 30, 30, 30, 30, 7, 0],
        blue := [30, 30, 7, 0, 0, 0, 0, 0, 7, 30, 30, 30]\<rparr>)"
  by code_simp

text \<open>
  Claim C9. After the start-up function the colour table is the intensity progression
  shifted by \<open>0\<close>, \<open>4\<close> and \<open>8\<close> slots: green is at the maximum intensity (\<open>30\<close>) at slots
  \<open>1\<close> to \<open>5\<close>, red at slots \<open>5\<close> to \<open>9\<close>, blue at slots \<open>9, 10, 11, 0, 1\<close>; the two slots at
  the edges of each band hold the medium intensity (\<open>7\<close>), every other slot is \<open>0\<close>.
\<close>

theorem color_table:
  "map_option green (setup_sketch power_on) = Some [7, 30, 30, 30, 30, 30, 7, 0, 0, 0, 0, 0] \<and>
   map_option red (setup_sketch power_on) = Some [0, 0, 0, 0, 7, 30, 30, 30, 30, 30, 7, 0] \<and>
   map_option blue (setup_sketch power_on) = Some [30, 30, 7, 0, 0, 0, 0, 0, 7, 30, 30, 30] \<and>
   MAX_INTENSITY = 30 \<and> MEDIUM_INTENSITY = 7"
  by (simp add: setup_value MAX_INTENSITY_def MEDIUM_INTENSITY_def)

section \<open>Rendering in the loop\<close>

lemma for_each_snoc:
  "for_each (xs @ [x]) body s = Option.bind (for_each xs body s) (body x)"
  by (induction xs arbitrary: s) (simp_all split: option.splits)

lemma window_offset_if:
  fixes p lead :: nat
  assumes "p < 144" "lead < 144"
  shows "window_offset lead p = (if lead \<le> p then p - lead else p + 144 - lead)"
proof (cases "lead \<le> p")
  case True
  then have "p + 144 - lead = (p - lead) + 144"
    by simp
  then have "(p + 144 - lead) mod 144 = (p - lead) mod 144"
    by (simp only: mod_add_self2)
  then show ?thesis
    using True assms by (simp add: window_offset_def)
next
  case False
  then show ?thesis
    using assms by (simp add: window_offset_def)
qed

lemma wrap_if:
  fixes lead n :: nat
  assumes "lead < 144" "n < 144"
  shows "(lead + n) mod 144 = (if lead + n < 144 then lead + n else lead + n - 144)"
proof (cases "lead + n < 144")
  case True
  then show ?thesis by simp
next
  case False
  then have "(lead + n) mod 144 = (lead + n - 144) mod 144"
    by (simp add: le_mod_geq)
  then show ?thesis
    using False assms by simp
qed

lemma window_offset_eq:
  fixes p lead n :: nat
  assumes "p < 144" "lead < 144" "n < 144"
  shows "(p = (lead + n) mod 144) = (window_offset lead p = n)"
  using assms by (simp only: window_offset_if [OF assms(1,2)] wrap_if [OF assms(2,3)]) auto

lemma window_loop:
  fixes lead n :: nat
  assumes "lead < 144" and "length ls = 144" and "n \<le> 12"
    and body: "\<And>i ls'. i < n \<Longrightarrow> length ls' = 144 \<Longrightarrow>
                 body i ls' = Some (ls'[(lead + i) mod 144 := col i])"
  shows "\<exists>ls'. for_each [0..<n] body ls = Some ls' \<and> length ls' = 144 \<and>
           (\<forall>p<144. ls' ! p = (if window_offset lead p < n then col (window_offset lead p) else ls ! p))"
  using assms(3) body
proof (induction n)
  case 0
  then show ?case using assms(2) by simp
next
  case (Suc n)
  have le: "n \<le> 12"
    using Suc.prems(1) by simp
  have b: "\<And>i ls'. i < n \<Longrightarrow> length ls' = 144 \<Longrightarrow>
             body i ls' = Some (ls'[(lead + i) mod 144 := col i])"
    using Suc.prems(2) by simp
  from Suc.IH [OF le b] obtain ls1 where
    run: "for_each [0..<n] body ls = Some ls1" and len: "length ls1 = 144" and
    pt: "\<forall>p<144. ls1 ! p = (if window_offset lead p < n then col (window_offset lead p) else ls ! p)"
    by blast
  let ?ls2 = "ls1[(lead + n) mod 144 := col n]"
  have step: "body n ls1 = Some ?ls2"
    using Suc.prems(2) [of n ls1] len by simp
  have run2: "for_each [0..<Suc n] body ls = Some ?ls2"
    using run step by (simp add: for_each_snoc)
  have pt2: "?ls2 ! p = (if window_offset lead p < Suc n then col (window_offset lead p) else ls ! p)"
    if p: "p < 144" for p
  proof (cases "p = (lead + n) mod 144")
    case True
    then have "window_offset lead p = n"
      using window_offset_eq [of p lead n] p assms(1) Suc.prems(1) by simp
    then show ?thesis
      using True len p by simp
  next
    case False
    then have "window_offset lead p \<noteq> n"
      using window_offset_eq [of p lead n] p assms(1) Suc.prems(1) by simp
    then show ?thesis
      using False pt p by (auto simp add: less_Suc_eq)
  qed
  show ?case
    using run2 len pt2 by simp
qed

lemma sint16_of_nat:
  assumes "i < 12"
  shows "sint (of_nat i :: int16) = int i"
proof -
  have "(of_nat i :: int16) = word_of_int (int i)"
    by simp
  moreover have "sint (word_of_int (int i) :: int16) = int i"
    using assms by (intro sint16_of_int) simp_all
  ultimately show ?thesis
    by (simp only:)
qed

lemma mod16_index:
  assumes "0 \<le> sint s" "sint s < 144" "i < 12" "0 < sint M" "sint M \<le> 144"
  shows "sint (mod16 (s + of_nat i) M) = (sint s + int i) mod sint M"
proof -
  have i: "sint (of_nat i :: int16) = int i"
    using assms(3) by (rule sint16_of_nat)
  have a: "sint (s + of_nat i) = sint s + int i"
    using assms i by (simp add: sint16_add)
  have m: "sint (s + of_nat i) smod sint M = (sint s + int i) mod sint M"
    using assms a by (simp add: smod_mod_positive)
  have lo: "0 \<le> (sint s + int i) mod sint M"
    using assms(4) by simp
  have hi: "(sint s + int i) mod sint M < sint M"
    using assms(4) by simp
  have "sint (word_of_int ((sint s + int i) mod sint M) :: int16) = (sint s + int i) mod sint M"
    using lo hi assms(5) by (intro sint16_of_int) linarith+
  then show ?thesis
    by (simp only: mod16_def m)
qed

lemma index_nat:
  assumes "0 \<le> k"
  shows "(k + int i) mod int m = int ((nat k + i) mod m)"
  using assms by (simp add: zmod_int)

lemma uint_ucast8:
  assumes "0 \<le> sint (w::int16)" "sint w < 256"
  shows "uint (ucast w :: uint8) = sint w"
proof -
  have "uint w = take_bit LENGTH(16) (sint w)"
    by (rule uint_sint)
  also have "\<dots> = sint w"
    using assms by (simp add: take_bit_int_eq_self)
  finally have u: "uint w = sint w" .
  have "uint (ucast w :: uint8) = take_bit LENGTH(8) (uint w)"
    by (rule unsigned_ucast_eq)
  also have "\<dots> = sint w"
    using assms u by (simp add: take_bit_int_eq_self)
  finally show ?thesis .
qed

lemma led_index:
  assumes "0 \<le> sint s" "sint s < 144" "i < 12"
  shows "sint (mod16 (s + of_nat i) 144) = int ((nat (sint s) + i) mod 144)"
proof -
  have "sint (mod16 (s + of_nat i) 144) = (sint s + int i) mod sint (144 :: int16)"
    using assms by (intro mod16_index) simp_all
  also have "\<dots> = (sint s + int i) mod int 144"
    by simp
  also have "\<dots> = int ((nat (sint s) + i) mod 144)"
    using assms(1) by (rule index_nat)
  finally show ?thesis .
qed

lemma color_index_nat:
  assumes "0 \<le> sint c" "sint c < 12" "i < 12"
  shows "sint (mod16 (c + of_nat i) 12) = int ((nat (sint c) + i) mod 12)"
proof -
  have "sint (mod16 (c + of_nat i) 12) = (sint c + int i) mod sint (12 :: int16)"
    using assms by (intro mod16_index) simp_all
  also have "\<dots> = (sint c + int i) mod int 12"
    by simp
  also have "\<dots> = int ((nat (sint c) + i) mod 12)"
    using assms(1) by (rule index_nat)
  finally show ?thesis .
qed

lemma turn_off_led_eq:
  assumes "0 \<le> sint s" "sint s < 144" "i < 12" "length ls = 144"
  shows "turn_off_led s i ls = Some (ls[(nat (sint s) + i) mod 144 := Black])"
  using assms(4) by (simp add: turn_off_led_def array_set_def led_index [OF assms(1,2,3)])

lemma set_led_color_eq:
  assumes s: "0 \<le> sint (start_led st)" "sint (start_led st) < 144"
    and c: "0 \<le> sint (color_index st)" "sint (color_index st) < 12"
    and i: "i < 12"
    and len: "length ls = 144" "length rs = 12" "length gs = 12" "length bs = 12"
  shows "set_led_color st rs gs bs i ls =
           Some (ls[(nat (sint (start_led st)) + i) mod 144 :=
                      table_color rs gs bs (nat (sint (color_index st))) i])"
proof -
  let ?lp = "mod16 (start_led st + of_nat i) 144"
  let ?cp = "mod16 (color_index st + of_nat i) 12"
  have lp: "sint ?lp = int ((nat (sint (start_led st)) + i) mod 144)"
    using s i by (rule led_index)
  have cp: "sint ?cp = int ((nat (sint (color_index st)) + i) mod 12)"
    using c i by (rule color_index_nat)
  have lp8: "uint (ucast ?lp :: uint8) = int ((nat (sint (start_led st)) + i) mod 144)"
    using lp by (subst uint_ucast8) simp_all
  have cp8: "uint (ucast ?cp :: uint8) = int ((nat (sint (color_index st)) + i) mod 12)"
    using cp by (subst uint_ucast8) simp_all
  show ?thesis
    using len by (simp add: set_led_color_def Let_def lp8 cp8 array_get_def array_set_def table_color_def)
qed

lemma mod16_range:
  assumes "0 \<le> sint a" "0 < sint M"
  shows "0 \<le> sint (mod16 a M) \<and> sint (mod16 a M) < sint M"
proof -
  have m: "sint a smod sint M = sint a mod sint M"
    using assms by (simp add: smod_mod_positive)
  have lo: "0 \<le> sint a mod sint M" and hi: "sint a mod sint M < sint M"
    using assms(2) by simp_all
  have "sint (word_of_int (sint a mod sint M) :: int16) = sint a mod sint M"
    using lo hi sint16_range [of M] by (intro sint16_of_int) linarith+
  then show ?thesis
    using lo hi by (simp only: mod16_def m)
qed

lemma step_leds_range:
  assumes "0 \<le> sint (start_led st)" "sint (start_led st) < 144"
  shows "0 \<le> sint (start_led (step_leds settings st)) \<and>
         sint (start_led (step_leds settings st)) < 144 \<and>
         color_index (step_leds settings st) = color_index st"
proof -
  have up: "0 \<le> sint (start_led st + 1)"
    using assms by (simp add: sint16_add)
  have d1: "sint (start_led st - 1) = sint (start_led st) - 1"
    using assms by (simp add: sint16_sub)
  have down: "0 \<le> sint (start_led st - 1 + 144)"
    using assms d1 by (simp add: sint16_add)
  have M: "0 < sint (144 :: int16)" "sint (144 :: int16) = 144"
    by simp_all
  show ?thesis
    using mod16_range [OF up M(1)] mod16_range [OF down M(1)] assms
    by (simp add: step_leds_def)
qed

lemma step_color_range:
  assumes "0 \<le> sint (color_index st)" "sint (color_index st) < 12"
  shows "0 \<le> sint (color_index (step_color settings st)) \<and>
         sint (color_index (step_color settings st)) < 12 \<and>
         start_led (step_color settings st) = start_led st"
proof -
  have up: "0 \<le> sint (color_index st + 1)"
    using assms by (simp add: sint16_add)
  have d1: "sint (color_index st - 1) = sint (color_index st) - 1"
    using assms by (simp add: sint16_sub)
  have down: "0 \<le> sint (color_index st - 1 + 12)"
    using assms d1 by (simp add: sint16_add)
  have M: "0 < sint (12 :: int16)"
    by simp
  show ?thesis
    using mod16_range [OF up M] mod16_range [OF down M] assms
    by (simp add: step_color_def)
qed

lemma advance_frame:
  "leds (advance expo settings sk) = leds sk \<and>
   green (advance expo settings sk) = green sk \<and>
   red (advance expo settings sk) = red sk \<and>
   blue (advance expo settings sk) = blue sk"
  by (simp add: advance_def Let_def split_beta)

lemma advance_state_indep:
  "state (advance expo settings (sk\<lparr>steps_reader := a, color_reader := b, leds := c\<rparr>)) =
   state (advance expo settings sk)"
  by (simp add: advance_def Let_def split_beta)

lemma advance_range:
  assumes "0 \<le> sint (start_led (state sk))" "sint (start_led (state sk)) < 144"
    "0 \<le> sint (color_index (state sk))" "sint (color_index (state sk)) < 12"
  shows "0 \<le> sint (start_led (state (advance expo settings sk))) \<and>
         sint (start_led (state (advance expo settings sk))) < 144 \<and>
         0 \<le> sint (color_index (state (advance expo settings sk))) \<and>
         sint (color_index (state (advance expo settings sk))) < 12"
proof -
  define st1 where "st1 = (if fst (tick (set_trigger_level
      (scast (reverse_and_expo expo (steps_speed settings))) (steps_trigger sk)))
      then step_leds settings (state sk) else state sk)"
  define st2 where "st2 = (if fst (tick (set_trigger_level
      (scast (reverse_and_expo expo (color_speed settings))) (color_trigger sk)))
      then step_color settings st1 else st1)"
  have e: "state (advance expo settings sk) = st2"
    by (simp add: advance_def Let_def split_beta st1_def st2_def)
  have r1: "0 \<le> sint (start_led st1) \<and> sint (start_led st1) < 144 \<and>
            color_index st1 = color_index (state sk)"
    using step_leds_range [OF assms(1,2), of settings] assms(1,2) by (simp add: st1_def)
  then have c1: "0 \<le> sint (color_index st1)" "sint (color_index st1) < 12"
    using assms(3,4) by simp_all
  have r2: "0 \<le> sint (color_index st2) \<and> sint (color_index st2) < 12 \<and>
            start_led st2 = start_led st1"
    using step_color_range [OF c1, of settings] c1 by (simp add: st2_def)
  show ?thesis
    using r1 r2 by (simp add: e)
qed

lemma get_settings_frame:
  "snd (get_settings speed_sample color_sample sk) =
     sk\<lparr>steps_reader := snd (get_value speed_sample (steps_reader sk)),
        color_reader := snd (get_value color_sample (color_reader sk))\<rparr>"
  by (simp add: get_settings_def Let_def split_beta)

lemma loop_step:
  assumes "sketch_ok sk"
  shows "\<exists>sk'. loop expo speed_sample color_sample sk = Some sk' \<and>
           state sk' = state (advance expo (fst (get_settings speed_sample color_sample sk)) sk) \<and>
           leds sk' =
             render_spec (nat (sint (start_led (state sk)))) (nat (sint (start_led (state sk'))))
               (nat (sint (color_index (state sk')))) (red sk) (green sk) (blue sk) (leds sk) \<and>
           green sk' = green sk \<and> red sk' = red sk \<and> blue sk' = blue sk \<and>
           sketch_ok sk'"
proof -
  let ?settings = "fst (get_settings speed_sample color_sample sk)"
  define a where "a = snd (get_value speed_sample (steps_reader sk))"
  define b where "b = snd (get_value color_sample (color_reader sk))"
  have gs: "snd (get_settings speed_sample color_sample sk) =
      sk\<lparr>steps_reader := a, color_reader := b\<rparr>"
    by (simp only: get_settings_frame a_def b_def)
  let ?sk1 = "sk\<lparr>steps_reader := a, color_reader := b\<rparr>"
  let ?old = "nat (sint (start_led (state sk)))"
  have len: "length (leds sk) = 144" "length (green sk) = 12" "length (red sk) = 12"
    "length (blue sk) = 12"
    using assms by (simp_all add: sketch_ok_def)
  have s: "0 \<le> sint (start_led (state sk))" "sint (start_led (state sk)) < 144"
    and c: "0 \<le> sint (color_index (state sk))" "sint (color_index (state sk)) < 12"
    using assms by (simp_all add: sketch_ok_def)
  have old: "?old < 144"
    using s by simp
  from window_loop [where body = "turn_off_led (start_led (state sk))" and col = "\<lambda>_. Black",
      OF old len(1) order_refl]
  obtain off where
    off: "for_each [0..<12] (turn_off_led (start_led (state sk))) (leds sk) = Some off" and
    offlen: "length off = 144" and
    offpt: "\<forall>p<144. off ! p = (if window_offset ?old p < 12 then Black else leds sk ! p)"
    using turn_off_led_eq [OF s] by blast
  let ?sk2 = "advance expo ?settings (?sk1\<lparr>leds := off\<rparr>)"
  have st2: "state ?sk2 = state (advance expo ?settings sk)"
    by (rule advance_state_indep)
  have fr: "leds ?sk2 = off" "green ?sk2 = green sk" "red ?sk2 = red sk" "blue ?sk2 = blue sk"
    using advance_frame [of expo ?settings "?sk1\<lparr>leds := off\<rparr>"] by simp_all
  let ?st = "state (advance expo ?settings sk)"
  have rng: "0 \<le> sint (start_led ?st) \<and> sint (start_led ?st) < 144 \<and>
             0 \<le> sint (color_index ?st) \<and> sint (color_index ?st) < 12"
    using s c by (rule advance_range)
  let ?new = "nat (sint (start_led ?st))"
  let ?phase = "nat (sint (color_index ?st))"
  have rs: "0 \<le> sint (start_led ?st)" "sint (start_led ?st) < 144"
    and rc: "0 \<le> sint (color_index ?st)" "sint (color_index ?st) < 12"
    using rng by simp_all
  have new: "?new < 144"
    using rs by simp
  have body: "\<And>i ls'. i < 12 \<Longrightarrow> length ls' = 144 \<Longrightarrow>
      set_led_color ?st (red sk) (green sk) (blue sk) i ls' =
        Some (ls'[(?new + i) mod 144 := table_color (red sk) (green sk) (blue sk) ?phase i])"
    using rs rc len by (intro set_led_color_eq) simp_all
  from window_loop [where body = "set_led_color ?st (red sk) (green sk) (blue sk)"
      and col = "table_color (red sk) (green sk) (blue sk) ?phase",
      OF new offlen order_refl body]
  obtain lit where
    lit: "for_each [0..<12] (set_led_color ?st (red sk) (green sk) (blue sk)) off = Some lit" and
    litlen: "length lit = 144" and
    litpt: "\<forall>p<144. lit ! p = (if window_offset ?new p < 12
               then table_color (red sk) (green sk) (blue sk) ?phase (window_offset ?new p)
               else off ! p)"
    by blast
  let ?sk' = "?sk2\<lparr>leds := lit\<rparr>"
  have run: "loop expo speed_sample color_sample sk = Some ?sk'"
    using off lit gs st2 fr by (simp add: loop_def split_beta Let_def)
  have render: "lit = render_spec ?old ?new ?phase (red sk) (green sk) (blue sk) (leds sk)"
  proof (rule nth_equalityI)
    show "length lit = length (render_spec ?old ?new ?phase (red sk) (green sk) (blue sk) (leds sk))"
      using litlen by (simp add: render_spec_def)
  next
    fix p
    assume "p < length lit"
    then have p: "p < 144"
      using litlen by simp
    show "lit ! p = render_spec ?old ?new ?phase (red sk) (green sk) (blue sk) (leds sk) ! p"
      using p litpt offpt by (simp add: render_spec_def)
  qed
  have ok: "sketch_ok ?sk'"
    using rng litlen len fr st2 by (simp add: sketch_ok_def)
  have "state ?sk' = ?st \<and> leds ?sk' = lit \<and> green ?sk' = green sk \<and> red ?sk' = red sk \<and>
        blue ?sk' = blue sk"
    using st2 fr by simp
  with run render ok show ?thesis
    by auto
qed

lemma loops_ok:
  "sketch_ok sk \<Longrightarrow> \<exists>sk'. loops expo samples sk = Some sk' \<and> sketch_ok sk'"
proof (induction samples arbitrary: sk)
  case Nil
  then show ?case by simp
next
  case (Cons x rest)
  obtain a b where x: "x = (a, b)"
    by (cases x)
  from loop_step [OF Cons.prems, of expo a b] obtain sk1 where
    run: "loop expo a b sk = Some sk1" and ok: "sketch_ok sk1"
    by blast
  from Cons.IH [OF ok] obtain sk' where "loops expo rest sk1 = Some sk'" "sketch_ok sk'"
    by blast
  then show ?case
    using run x by simp
qed

lemma started_ok: "\<exists>sk. setup_sketch power_on = Some sk \<and> sketch_ok sk"
  unfolding setup_value by (simp add: sketch_ok_def power_on_def)

text \<open>
  Claim C8. From every state in which the arrays have their sizes and the indices are in
  range, a run of \<open>loop\<close> completes without an access outside an array, and the strip
  buffer it leaves is the one the specification describes: the \<open>12\<close> LEDs from the leading
  index before the update are turned off, then the \<open>12\<close> LEDs from the leading index after
  the update are written, the LED at offset \<open>i\<close> from the colour-table slot
  \<open>(colour index + i) mod 12\<close> of the updated state; every other LED keeps its colour. The
  updated state is the one the triggers and step functions produce in this run, the colour
  tables are untouched, and the state reached satisfies the same conditions again.
\<close>

theorem loop_render:
  assumes "sketch_ok sk"
  shows "\<exists>sk'. loop expo speed_sample color_sample sk = Some sk' \<and>
           state sk' = state (advance expo (fst (get_settings speed_sample color_sample sk)) sk) \<and>
           leds sk' =
             render_spec (nat (sint (start_led (state sk)))) (nat (sint (start_led (state sk'))))
               (nat (sint (color_index (state sk')))) (red sk) (green sk) (blue sk) (leds sk) \<and>
           green sk' = green sk \<and> red sk' = red sk \<and> blue sk' = blue sk \<and>
           sketch_ok sk'"
  using assms by (rule loop_step)

lemma started_value:
  "the (setup_sketch power_on) =
     power_on\<lparr>leds := replicate 144 Black,
        green := [7, 30, 30, 30, 30, 30, 7, 0, 0, 0, 0, 0],
        red := [0, 0, 0, 0, 7, 30, 30, 30, 30, 30, 7, 0],
        blue := [30, 30, 7, 0, 0, 0, 0, 0, 7, 30, 30, 30]\<rparr>"
  by (simp add: setup_value)

theorem loop_render_witness:
  "sketch_ok (the (setup_sketch power_on)) \<and>
   (\<exists>sk'. loop (\<lambda>_. 1) 0 0 (the (setup_sketch power_on)) = Some sk' \<and>
      state sk' = \<lparr>start_led = 143, color_index = 11\<rparr> \<and>
      leds sk' ! 143 = CRGB 0 0 30 \<and> leds sk' ! 0 = CRGB 0 7 30 \<and> leds sk' ! 11 = Black \<and>
      sketch_ok sk')"
proof -
  let ?sk = "the (setup_sketch power_on)"
  have h: "sketch_ok ?sk"
    unfolding started_value by (simp add: sketch_ok_def power_on_def)
  have st: "state (advance (\<lambda>_. 1) (fst (get_settings 0 0 ?sk)) ?sk) =
              \<lparr>start_led = 143, color_index = 11\<rparr>"
    unfolding started_value by code_simp
  have tb: "red ?sk = [0, 0, 0, 0, 7, 30, 30, 30, 30, 30, 7, 0]"
    "green ?sk = [7, 30, 30, 30, 30, 30, 7, 0, 0, 0, 0, 0]"
    "blue ?sk = [30, 30, 7, 0, 0, 0, 0, 0, 7, 30, 30, 30]"
    "start_led (state ?sk) = 0"
    unfolding started_value by (simp_all add: power_on_def)
  from loop_render [OF h, of "\<lambda>_. 1" 0 0] obtain sk' where
    run: "loop (\<lambda>_. 1) 0 0 ?sk = Some sk'" and
    s': "state sk' = state (advance (\<lambda>_. 1) (fst (get_settings 0 0 ?sk)) ?sk)" and
    l': "leds sk' = render_spec (nat (sint (start_led (state ?sk)))) (nat (sint (start_led (state sk'))))
               (nat (sint (color_index (state sk')))) (red ?sk) (green ?sk) (blue ?sk) (leds ?sk)" and
    ok': "sketch_ok sk'"
    by blast
  have s2: "state sk' = \<lparr>start_led = 143, color_index = 11\<rparr>"
    using s' st by simp
  have l2: "leds sk' = render_spec 0 143 11 (red ?sk) (green ?sk) (blue ?sk) (leds ?sk)"
    using l' by (simp add: s2 tb(4))
  have p: "leds sk' ! 143 = CRGB 0 0 30" "leds sk' ! 0 = CRGB 0 7 30" "leds sk' ! 11 = Black"
    by (simp_all add: l2 render_spec_def window_offset_def table_color_def tb nth_map_upt)
  from h run s2 p ok' show ?thesis
    by blast
qed

end
